theory Spec2Isabelle
  imports Main "HOL-Library.Word" "HOL-Library.Signed_Division" "HOL-Library.While_Combinator"
begin

section \<open>The constants of gmtime.c\<close>

text \<open>
  The source is \<^verbatim>\<open>src/libc/gmtime.c\<close>. Its constants are \<^verbatim>\<open>unsigned long\<close>
  literals; every one of them, and every product formed from them, is below \<open>2 ^ 32\<close>.
\<close>

definition SECS_PER_DAY :: int where
  "SECS_PER_DAY = 86400"

definition SECS_PER_HOUR :: int where
  "SECS_PER_HOUR = 3600"

definition SECS_PER_MIN :: int where
  "SECS_PER_MIN = 60"

definition SECS_PER_YEAR :: int where
  "SECS_PER_YEAR = 365 * SECS_PER_DAY"

definition SECS_PER_LEAP :: int where
  "SECS_PER_LEAP = SECS_PER_YEAR + SECS_PER_DAY"

section \<open>What the source takes from outside\<close>

text \<open>
  Modelled from the spec: the function \<^verbatim>\<open>__isleap\<close> is only declared in gmtime.c
  (\<^verbatim>\<open>extern bool __isleap(int year)\<close>). The spec describes it as the Gregorian rule on
  the full calendar year: divisible by 4, except centuries not divisible by 400.
\<close>

definition isleap :: "int \<Rightarrow> bool" where
  "isleap year = (year mod 4 = 0 \<and> (year mod 100 \<noteq> 0 \<or> year mod 400 = 0))"

text \<open>
  Modelled from the spec: \<^verbatim>\<open>time_t\<close> and \<^verbatim>\<open>struct tm\<close> come from \<^verbatim>\<open>time.h\<close>,
  which is not among the sources. The spec makes the input a signed integer count of
  seconds on which the host's division truncates towards zero. Accordingly a
  \<^verbatim>\<open>time_t\<close> value is an \<open>int\<close>, the arithmetic between \<^verbatim>\<open>t\<close> and the
  \<^verbatim>\<open>unsigned long\<close> constants is the signed arithmetic of a \<^verbatim>\<open>time_t\<close> that holds every
  \<^verbatim>\<open>unsigned long\<close> value (\<open>sdiv\<close> and \<open>smod\<close> are C's \<^verbatim>\<open>/\<close> and \<^verbatim>\<open>%\<close>), and
  \<^verbatim>\<open>struct tm\<close> has the C standard's nine \<^verbatim>\<open>int\<close> fields. The loops subtract from
  \<^verbatim>\<open>t\<close> only an amount that \<^verbatim>\<open>t\<close> is at least as large as, and add only to a negative
  \<^verbatim>\<open>t\<close>, so no operation on \<^verbatim>\<open>t\<close> leaves the range of a type that holds the input.

  An \<^verbatim>\<open>int\<close> has 32 bits. The year is the one \<^verbatim>\<open>int\<close> whose operations can leave that
  range: \<^verbatim>\<open>tm2.tm_year++\<close>, \<^verbatim>\<open>--tm2.tm_year\<close> and the \<^verbatim>\<open>year += 1900\<close> of
  \<^verbatim>\<open>istmleap\<close>. Their overflow is written out as the two's complement wrap-around
  of the compiled code: \<open>int_wrap\<close> takes the mathematical result to the \<^verbatim>\<open>int\<close> that is
  stored. Every other field stays below 366.
\<close>

definition int_wrap :: "int \<Rightarrow> int" where
  "int_wrap x = (x + 2147483648) mod 4294967296 - 2147483648"

record tm =
  tm_sec :: int
  tm_min :: int
  tm_hour :: int
  tm_mday :: int
  tm_mon :: int
  tm_year :: int
  tm_wday :: int
  tm_yday :: int
  tm_isdst :: int

section \<open>The static objects of gmtime\<close>

text \<open>
  \<^verbatim>\<open>static uint8_t dpm[]\<close> and \<^verbatim>\<open>static struct tm tm2\<close> live across calls: they are
  the state that a call receives and hands on.
\<close>

record statics =
  dpm :: "8 word list"
  tm2 :: tm

definition dpm_init :: "8 word list" where
  "dpm_init = [31, 28, 31, 30, 31, 30, 31, 31, 30, 31, 30, 31]"

section \<open>istmleap\<close>

text \<open>\<^verbatim>\<open>year += 1900; return __isleap(year);\<close>\<close>

definition istmleap :: "int \<Rightarrow> bool" where
  "istmleap year = isleap (int_wrap (year + 1900))"

section \<open>The loops of gmtime\<close>

text \<open>
  \<^verbatim>\<open>while (t >= (secs_this_year = istmleap(tm2.tm_year) ? SECS_PER_LEAP : SECS_PER_YEAR))
    { t -= secs_this_year; tm2.tm_year++; }\<close>
\<close>

function year_fwd :: "int \<Rightarrow> int \<Rightarrow> int \<times> int" where
  "year_fwd t year =
     (let secs_this_year = (if istmleap year then SECS_PER_LEAP else SECS_PER_YEAR)
      in if t \<ge> secs_this_year then year_fwd (t - secs_this_year) (int_wrap (year + 1))
         else (t, year))"
  by pat_completeness auto
termination
  by (relation "measure (\<lambda>(t, year). nat t)")
     (auto simp: SECS_PER_LEAP_def SECS_PER_YEAR_def SECS_PER_DAY_def split: if_splits)

text \<open>
  \<^verbatim>\<open>while (t < 0) { t += istmleap(--tm2.tm_year) ? SECS_PER_LEAP : SECS_PER_YEAR; }\<close>
\<close>

function year_back :: "int \<Rightarrow> int \<Rightarrow> int \<times> int" where
  "year_back t year =
     (if t < 0
      then year_back
             (t + (if istmleap (int_wrap (year - 1)) then SECS_PER_LEAP else SECS_PER_YEAR))
             (int_wrap (year - 1))
      else (t, year))"
  by pat_completeness auto
termination
  by (relation "measure (\<lambda>(t, year). nat (- t))")
     (auto simp: SECS_PER_LEAP_def SECS_PER_YEAR_def SECS_PER_DAY_def)

text \<open>
  \<^verbatim>\<open>while (t >= dpm[tm2.tm_mon] * SECS_PER_DAY) { t -= dpm[tm2.tm_mon++] * SECS_PER_DAY; }\<close>

  The table is read at the month index; a read past its end is undefined in C and is
  the result \<open>None\<close> here.
\<close>

function month_walk :: "8 word list \<Rightarrow> int \<Rightarrow> nat \<Rightarrow> (int \<times> nat) option" where
  "month_walk d t mon =
     (if mon < length d
      then (if t \<ge> uint (d ! mon) * SECS_PER_DAY
            then month_walk d (t - uint (d ! mon) * SECS_PER_DAY) (mon + 1)
            else Some (t, mon))
      else None)"
  by pat_completeness auto
termination
  by (relation "measure (\<lambda>(d, t, mon). length d - mon)") auto

text \<open>\<^verbatim>\<open>while (t >= SECS_PER_DAY) { t -= SECS_PER_DAY; tm2.tm_mday++; }\<close>\<close>

function day_walk :: "int \<Rightarrow> int \<Rightarrow> int \<times> int" where
  "day_walk t mday =
     (if t \<ge> SECS_PER_DAY then day_walk (t - SECS_PER_DAY) (mday + 1) else (t, mday))"
  by pat_completeness auto
termination
  by (relation "measure (\<lambda>(t, mday). nat t)") (auto simp: SECS_PER_DAY_def)

text \<open>\<^verbatim>\<open>while (t >= SECS_PER_HOUR) { t -= SECS_PER_HOUR; tm2.tm_hour++; }\<close>\<close>

function hour_walk :: "int \<Rightarrow> int \<Rightarrow> int \<times> int" where
  "hour_walk t hour =
     (if t \<ge> SECS_PER_HOUR then hour_walk (t - SECS_PER_HOUR) (hour + 1) else (t, hour))"
  by pat_completeness auto
termination
  by (relation "measure (\<lambda>(t, hour). nat t)") (auto simp: SECS_PER_HOUR_def)

text \<open>\<^verbatim>\<open>while (t >= SECS_PER_MIN) { t -= SECS_PER_MIN; tm2.tm_min++; }\<close>\<close>

function min_walk :: "int \<Rightarrow> int \<Rightarrow> int \<times> int" where
  "min_walk t minute =
     (if t \<ge> SECS_PER_MIN then min_walk (t - SECS_PER_MIN) (minute + 1) else (t, minute))"
  by pat_completeness auto
termination
  by (relation "measure (\<lambda>(t, minute). nat t)") (auto simp: SECS_PER_MIN_def)

declare year_fwd.simps [simp del] year_back.simps [simp del] month_walk.simps [simp del]
  day_walk.simps [simp del] hour_walk.simps [simp del] min_walk.simps [simp del]

section \<open>gmtime\<close>

text \<open>\<^verbatim>\<open>if (istmleap(tm2.tm_year)) { dpm[1] = 29; }\<close>, as the table it leaves.\<close>

definition set_february :: "8 word list \<Rightarrow> int \<Rightarrow> 8 word list" where
  "set_february d year = (if istmleap year then d[1 := 29] else d)"

text \<open>
  The call up to the end of the month loop (lines 38 to 70 of the source). It takes the
  static objects and the value \<^verbatim>\<open>*tp\<close>, and gives the static objects and the local
  \<^verbatim>\<open>t\<close> as they are when the month loop has exited: \<^verbatim>\<open>dpm\<close> after the conditional
  store of 29, \<^verbatim>\<open>tm2\<close> with the fields assigned so far. It gives \<open>None\<close> when the
  month loop reads past the table.
\<close>

definition gmtime_to_months :: "statics \<Rightarrow> int \<Rightarrow> (statics \<times> int) option" where
  "gmtime_to_months s tp =
     (let t = tp;
          wday = (t sdiv SECS_PER_DAY + 4) smod 7;
          (t, year) = year_fwd t 70;
          (t, year) = year_back t year;
          yday = t sdiv SECS_PER_DAY;
          d = set_february (dpm s) year
      in case month_walk d t 0 of
           None \<Rightarrow> None
         | Some (t, mon) \<Rightarrow>
             Some (s\<lparr>dpm := d,
                     tm2 := \<lparr>tm_sec = 0, tm_min = 0, tm_hour = 0, tm_mday = 1,
                             tm_mon = int mon, tm_year = year, tm_wday = wday,
                             tm_yday = yday, tm_isdst = - 1\<rparr>\<rparr>, t))"

text \<open>
  The whole call: the rest of the body (lines 72 to 94) restores February, fills in the
  day of the month, the hours, the minutes and the seconds, and returns \<^verbatim>\<open>&tm2\<close>. The
  result is \<open>None\<close> when the month loop reads past the table, and otherwise the
  returned pointer (\<open>None\<close> for \<^verbatim>\<open>NULL\<close>, \<open>Some r\<close> for a pointer to a \<^verbatim>\<open>struct tm\<close>
  holding \<open>r\<close>) with the static objects as the call leaves them. The source returns
  \<^verbatim>\<open>&tm2\<close> and nothing else.
\<close>

definition gmtime :: "statics \<Rightarrow> int \<Rightarrow> (tm option \<times> statics) option" where
  "gmtime s tp =
     (case gmtime_to_months s tp of
        None \<Rightarrow> None
      | Some (s, t) \<Rightarrow>
          let d = (dpm s)[1 := 28];
              (t, mday) = day_walk t (tm_mday (tm2 s));
              (t, hour) = hour_walk t (tm_hour (tm2 s));
              (t, minute) = min_walk t (tm_min (tm2 s));
              r = (tm2 s)\<lparr>tm_sec := t, tm_min := minute, tm_hour := hour, tm_mday := mday\<rparr>
          in Some (Some r, s\<lparr>dpm := d, tm2 := r\<rparr>))"

text \<open>
  Objects of static storage duration start zeroed, and \<^verbatim>\<open>dpm\<close> has its initialiser:
  the static objects before the first call.
\<close>

definition tm_zero :: tm where
  "tm_zero = \<lparr>tm_sec = 0, tm_min = 0, tm_hour = 0, tm_mday = 0, tm_mon = 0, tm_year = 0,
     tm_wday = 0, tm_yday = 0, tm_isdst = 0\<rparr>"

definition statics_init :: statics where
  "statics_init = \<lparr>dpm = dpm_init, tm2 = tm_zero\<rparr>"


section \<open>The calendar the results are measured against\<close>

text \<open>
  The Gregorian calendar on year offsets that are integers without bound. The length
  of the year \<open>year + 1900\<close> in seconds:
\<close>

definition ylen :: "int \<Rightarrow> int" where
  "ylen year = (if isleap (year + 1900) then SECS_PER_LEAP else SECS_PER_YEAR)"

text \<open>
  The seconds from the epoch to the start of the year \<open>year + 1900\<close>: the lengths of
  the whole years from 1970 on, or, before 1970, minus the lengths of the years back
  to it.
\<close>

definition years_secs :: "int \<Rightarrow> int" where
  "years_secs year =
     (if 70 \<le> year then sum_list (map ylen [70..year - 1])
      else - sum_list (map ylen [year..69]))"

text \<open>The month lengths of a year, and the seconds in the first \<open>m\<close> entries of a table.\<close>

definition month_table :: "int \<Rightarrow> 8 word list" where
  "month_table year = (if isleap (year + 1900) then dpm_init[1 := 29] else dpm_init)"

definition days_in_month :: "int \<Rightarrow> nat \<Rightarrow> int" where
  "days_in_month year mon = uint (month_table year ! mon)"

definition msum :: "8 word list \<Rightarrow> nat \<Rightarrow> int" where
  "msum d m = sum_list (map (\<lambda>w. uint w * SECS_PER_DAY) (take m d))"

text \<open>
  The seconds since the epoch that a breakdown stands for: whole years, whole months
  of its year, whole days before the day of the month, hours, minutes, seconds.
\<close>

definition recompose :: "tm \<Rightarrow> int" where
  "recompose r =
     years_secs (tm_year r) + msum (month_table (tm_year r)) (nat (tm_mon r))
     + (tm_mday r - 1) * SECS_PER_DAY + tm_hour r * SECS_PER_HOUR
     + tm_min r * SECS_PER_MIN + tm_sec r"

text \<open>The day of the month of a breakdown is a day of its month.\<close>

definition mday_in_month :: "tm \<Rightarrow> bool" where
  "mday_in_month r = (tm_mday r \<le> days_in_month (tm_year r) (nat (tm_mon r)))"

text \<open>Lexicographic comparison of the fields that order breakdowns in time.\<close>

definition tm_key :: "tm \<Rightarrow> int list" where
  "tm_key r = [tm_year r, tm_mon r, tm_mday r, tm_hour r, tm_min r, tm_sec r]"

fun lex_le :: "int list \<Rightarrow> int list \<Rightarrow> bool" where
  "lex_le [] ys = True"
| "lex_le (x # xs) [] = False"
| "lex_le (x # xs) (y # ys) = (x < y \<or> (x = y \<and> lex_le xs ys))"

text \<open>The number of leap years from year 1 to year \<open>n\<close>, counted back for \<open>n < 1\<close>.\<close>

definition leaps_upto :: "int \<Rightarrow> int" where
  "leaps_upto n = n div 4 - n div 100 + n div 400"

section \<open>The year counter of the code\<close>

text \<open>
  The year loops count in an \<^verbatim>\<open>int\<close>. Their counter is followed by the integer \<open>k\<close>
  that it would be without wrap-around: the counter is \<open>int_wrap k\<close>, and the length
  that the code gives the year at that point is \<open>clen k\<close>. The seconds that the code
  has walked from the epoch when its counter stands at \<open>k\<close> are \<open>gsecs clen k\<close>, as
  \<open>gsecs ylen k\<close> are the seconds of the calendar.
\<close>

definition clen :: "int \<Rightarrow> int" where
  "clen k = (if istmleap (int_wrap k) then SECS_PER_LEAP else SECS_PER_YEAR)"

definition gsecs :: "(int \<Rightarrow> int) \<Rightarrow> int \<Rightarrow> int" where
  "gsecs L year =
     (if 70 \<le> year then sum_list (map L [70..year - 1])
      else - sum_list (map L [year..69]))"

definition year_lengths :: "(int \<Rightarrow> int) \<Rightarrow> bool" where
  "year_lengths L = (\<forall>k. SECS_PER_YEAR \<le> L k \<and> L k \<le> SECS_PER_LEAP)"

text \<open>
  The breakdown that \<^verbatim>\<open>gmtime\<close> stores for the input \<open>E\<close> once the year loops have
  left \<open>t1\<close> seconds in the year \<open>y\<close> and the month loop \<open>t2\<close> seconds in month \<open>m\<close>.
\<close>

definition resolved_tm :: "int \<Rightarrow> int \<Rightarrow> int \<Rightarrow> nat \<Rightarrow> int \<Rightarrow> tm" where
  "resolved_tm E y t1 m t2 =
     \<lparr>tm_sec = ((t2 mod SECS_PER_DAY) mod SECS_PER_HOUR) mod SECS_PER_MIN,
      tm_min = ((t2 mod SECS_PER_DAY) mod SECS_PER_HOUR) div SECS_PER_MIN,
      tm_hour = (t2 mod SECS_PER_DAY) div SECS_PER_HOUR,
      tm_mday = 1 + t2 div SECS_PER_DAY,
      tm_mon = int m, tm_year = y,
      tm_wday = (E sdiv SECS_PER_DAY + 4) smod 7,
      tm_yday = t1 div SECS_PER_DAY, tm_isdst = - 1\<rparr>"

text \<open>
  The breakdown behind the pointer a call returns: \<open>None\<close> when the call returns no
  breakdown.
\<close>

definition gmtime_tm :: "statics \<Rightarrow> int \<Rightarrow> tm option" where
  "gmtime_tm s tp = (case gmtime s tp of Some (Some r, s') \<Rightarrow> Some r | _ \<Rightarrow> None)"

text \<open>Midnight of a calendar day, as a breakdown, for use with \<open>recompose\<close>.\<close>

definition civil :: "int \<Rightarrow> int \<Rightarrow> int \<Rightarrow> tm" where
  "civil year mon mday =
     \<lparr>tm_sec = 0, tm_min = 0, tm_hour = 0, tm_mday = mday, tm_mon = mon, tm_year = year,
      tm_wday = 0, tm_yday = 0, tm_isdst = - 1\<rparr>"

section \<open>Wrap-around and the seconds of whole years\<close>

lemma int_wrap_add: "int_wrap (int_wrap k + c) = int_wrap (k + c)"
  by (simp add: int_wrap_def mod_add_right_eq mod_add_left_eq algebra_simps)

lemma int_wrap_diff: "int_wrap (int_wrap k - c) = int_wrap (k - c)"
  using int_wrap_add [of k "- c"] by simp

lemma int_wrap_id: "- 2147483648 \<le> k \<Longrightarrow> k < 2147483648 \<Longrightarrow> int_wrap k = k"
  unfolding int_wrap_def by simp

lemma int_wrap_range: "- 2147483648 \<le> int_wrap k" "int_wrap k \<le> 2147483647"
  unfolding int_wrap_def by simp_all

lemma int_wrap_period: "int_wrap (k - 4294967296) = int_wrap k"
proof -
  have "(k - 4294967296 + 2147483648) mod 4294967296 = (k + 2147483648) mod 4294967296"
    using mod_add_self2 [of "k - 4294967296 + 2147483648" 4294967296] by (simp add: algebra_simps)
  then show ?thesis by (simp add: int_wrap_def)
qed

lemma int_wrap_high:
  "2147483648 \<le> k \<Longrightarrow> k < 6442450944 \<Longrightarrow> int_wrap k = k - 4294967296"
  using int_wrap_period [of k] int_wrap_id [of "k - 4294967296"] by simp

lemma year_lengths_ylen: "year_lengths ylen"
  by (simp add: year_lengths_def ylen_def SECS_PER_LEAP_def SECS_PER_YEAR_def SECS_PER_DAY_def)

lemma year_lengths_clen: "year_lengths clen"
  by (simp add: year_lengths_def clen_def SECS_PER_LEAP_def SECS_PER_YEAR_def SECS_PER_DAY_def)

lemma year_lengths_pos: "year_lengths L \<Longrightarrow> 0 < L k"
  by (auto simp: year_lengths_def SECS_PER_YEAR_def SECS_PER_DAY_def
      dest: spec [of _ k])

lemma clen_bounds: "0 < clen k" "SECS_PER_YEAR \<le> clen k" "clen k \<le> SECS_PER_LEAP"
  by (simp_all add: clen_def SECS_PER_LEAP_def SECS_PER_YEAR_def SECS_PER_DAY_def)

lemma ylen_pos: "0 < ylen y" "SECS_PER_YEAR \<le> ylen y" "ylen y \<le> SECS_PER_LEAP"
  by (simp_all add: ylen_def SECS_PER_LEAP_def SECS_PER_YEAR_def SECS_PER_DAY_def)

lemma years_secs_gsecs: "years_secs y = gsecs ylen y"
  by (simp add: years_secs_def gsecs_def)

lemma gsecs_70: "gsecs L 70 = 0"
  by (simp add: gsecs_def)

lemma gsecs_step: "gsecs L (y + 1) = gsecs L y + L y"
proof -
  consider "70 \<le> y" | "y = 69" | "y < 69" by linarith
  then show ?thesis
  proof cases
    case 1
    then have "[70..y] = [70..y - 1] @ [y]" by (simp add: upto_rec2)
    with 1 show ?thesis by (simp add: gsecs_def)
  next
    case 2
    then show ?thesis by (simp add: gsecs_def)
  next
    case 3
    then have "[y..69] = y # [y + 1..69]" by (simp add: upto_rec1)
    with 3 show ?thesis by (simp add: gsecs_def)
  qed
qed

lemma gsecs_prev: "gsecs L (y - 1) = gsecs L y - L (y - 1)"
  using gsecs_step [of L "y - 1"] by simp

lemma gsecs_mono:
  assumes "year_lengths L" "y \<le> y'"
  shows "gsecs L y \<le> gsecs L y'"
  using assms(2)
proof (induction y' rule: int_ge_induct)
  case base
  show ?case by simp
next
  case (step i)
  then show ?case using gsecs_step [of L i] year_lengths_pos [OF assms(1), of i] by simp
qed

lemma gsecs_upper:
  assumes "year_lengths L" "70 \<le> y"
  shows "gsecs L y \<le> (y - 70) * SECS_PER_LEAP"
  using assms(2)
proof (induction y rule: int_ge_induct)
  case base
  show ?case by (simp add: gsecs_def)
next
  case (step i)
  have "L i \<le> SECS_PER_LEAP" using assms(1) by (simp add: year_lengths_def)
  with step show ?case using gsecs_step [of L i] by (simp add: algebra_simps)
qed

lemma gsecs_lower:
  assumes "year_lengths L" "70 \<le> y"
  shows "(y - 70) * SECS_PER_YEAR \<le> gsecs L y"
  using assms(2)
proof (induction y rule: int_ge_induct)
  case base
  show ?case by (simp add: gsecs_def)
next
  case (step i)
  have "SECS_PER_YEAR \<le> L i" using assms(1) by (simp add: year_lengths_def)
  with step show ?case using gsecs_step [of L i] by (simp add: algebra_simps)
qed

lemma gsecs_before:
  assumes "year_lengths L" "y \<le> 70"
  shows "gsecs L y \<le> (y - 70) * SECS_PER_YEAR"
  using assms(2)
proof (induction y rule: int_le_induct)
  case base
  show ?case by (simp add: gsecs_def)
next
  case (step i)
  have "SECS_PER_YEAR \<le> L (i - 1)" using assms(1) by (simp add: year_lengths_def)
  with step show ?case using gsecs_prev [of L i] by (simp add: algebra_simps)
qed

lemma gsecs_cong:
  assumes "\<And>k. min y 70 \<le> k \<Longrightarrow> k < max y 70 \<Longrightarrow> L k = L' k"
  shows "gsecs L y = gsecs L' y"
proof (cases "70 \<le> y")
  case True
  then have "map L [70..y - 1] = map L' [70..y - 1]"
    using assms by (intro map_cong refl) auto
  then have "sum_list (map L [70..y - 1]) = sum_list (map L' [70..y - 1])"
    by (rule arg_cong)
  with True show ?thesis by (simp only: gsecs_def if_True)
next
  case False
  then have "map L [y..69] = map L' [y..69]"
    using assms by (intro map_cong refl) auto
  then have "sum_list (map L [y..69]) = sum_list (map L' [y..69])"
    by (rule arg_cong)
  with False show ?thesis by (simp only: gsecs_def if_False)
qed

lemma year_order:
  assumes "year_lengths L" "gsecs L y1 + a1 < gsecs L y2 + a2" "0 \<le> a1" "a2 < L y2"
  shows "y1 \<le> y2"
proof (rule ccontr)
  assume "\<not> y1 \<le> y2"
  then have "y2 + 1 \<le> y1" by simp
  from gsecs_mono [OF assms(1) this] have "gsecs L y2 + L y2 \<le> gsecs L y1"
    by (simp add: gsecs_step)
  with assms show False by simp
qed

lemma year_unique:
  assumes "year_lengths L" "gsecs L y1 + a1 = gsecs L y2 + a2"
    "0 \<le> a1" "a1 < L y1" "0 \<le> a2" "a2 < L y2"
  shows "y1 = y2 \<and> a1 = a2"
proof -
  have "y1 \<le> y2"
  proof (rule ccontr)
    assume "\<not> y1 \<le> y2"
    then have "y2 + 1 \<le> y1" by simp
    from gsecs_mono [OF assms(1) this] have "gsecs L y2 + L y2 \<le> gsecs L y1"
      by (simp add: gsecs_step)
    with assms show False by simp
  qed
  moreover have "y2 \<le> y1"
  proof (rule ccontr)
    assume "\<not> y2 \<le> y1"
    then have "y1 + 1 \<le> y2" by simp
    from gsecs_mono [OF assms(1) this] have "gsecs L y1 + L y1 \<le> gsecs L y2"
      by (simp add: gsecs_step)
    with assms show False by simp
  qed
  ultimately have "y1 = y2" by simp
  with assms(2) show ?thesis by simp
qed

lemma year_fwd_inv:
  "year = int_wrap k \<Longrightarrow> year_fwd t year = (t', y') \<Longrightarrow>
     \<exists>k'. y' = int_wrap k' \<and> k \<le> k' \<and> t' + gsecs clen k' = t + gsecs clen k
       \<and> t' < clen k' \<and> (0 \<le> t \<longrightarrow> 0 \<le> t') \<and> (t < 0 \<longrightarrow> k' = k)"
proof (induction t year arbitrary: k t' y' rule: year_fwd.induct)
  case (1 t year)
  have len: "(if istmleap year then SECS_PER_LEAP else SECS_PER_YEAR) = clen k"
    using "1.prems"(1) by (simp add: clen_def)
  show ?case
  proof (cases "t \<ge> clen k")
    case True
    then have rec: "year_fwd (t - clen k) (int_wrap (year + 1)) = (t', y')"
      using "1.prems"(2) len by (subst (asm) year_fwd.simps) (simp add: Let_def)
    have nxt: "int_wrap (year + 1) = int_wrap (k + 1)"
      using "1.prems"(1) by (simp add: int_wrap_add)
    from "1.IH" [of "clen k" "k + 1" t' y'] len True nxt rec
    obtain k' where k': "y' = int_wrap k'" "k + 1 \<le> k'"
      "t' + gsecs clen k' = t - clen k + gsecs clen (k + 1)" "t' < clen k'"
      "0 \<le> t - clen k \<longrightarrow> 0 \<le> t'"
      by auto
    with True clen_bounds(1) [of k] show ?thesis
      by (intro exI [of _ k']) (auto simp: gsecs_step)
  next
    case False
    then have "t' = t" "y' = year"
      using "1.prems"(2) len by (subst (asm) year_fwd.simps, simp add: Let_def)+
    with False "1.prems"(1) clen_bounds(1) [of k] show ?thesis
      by (intro exI [of _ k]) auto
  qed
qed

lemma year_back_inv:
  "year = int_wrap k \<Longrightarrow> year_back t year = (t', y') \<Longrightarrow>
     \<exists>k'. y' = int_wrap k' \<and> k' \<le> k \<and> t' + gsecs clen k' = t + gsecs clen k
       \<and> 0 \<le> t' \<and> (t < clen k \<longrightarrow> t' < clen k') \<and> (0 \<le> t \<longrightarrow> k' = k)"
proof (induction t year arbitrary: k t' y' rule: year_back.induct)
  case (1 t year)
  have nxt: "int_wrap (year - 1) = int_wrap (k - 1)"
    using "1.prems"(1) by (simp add: int_wrap_diff)
  then have len: "(if istmleap (int_wrap (year - 1)) then SECS_PER_LEAP else SECS_PER_YEAR)
      = clen (k - 1)"
    by (simp add: clen_def)
  show ?case
  proof (cases "t < 0")
    case True
    then have rec: "year_back (t + clen (k - 1)) (int_wrap (year - 1)) = (t', y')"
      using "1.prems"(2) len by (subst (asm) year_back.simps) simp
    from "1.IH" [OF True nxt] rec len
    obtain k' where k': "y' = int_wrap k'" "k' \<le> k - 1"
      "t' + gsecs clen k' = t + clen (k - 1) + gsecs clen (k - 1)" "0 \<le> t'"
      "t + clen (k - 1) < clen (k - 1) \<longrightarrow> t' < clen k'"
      by auto
    with True show ?thesis
      by (intro exI [of _ k']) (auto simp: gsecs_prev)
  next
    case False
    then have "t' = t" "y' = year"
      using "1.prems"(2) by (subst (asm) year_back.simps, simp)+
    with False "1.prems"(1) show ?thesis
      by (intro exI [of _ k]) auto
  qed
qed

section \<open>The loops, one by one\<close>

lemma msum_Suc: "m < length d \<Longrightarrow> msum d (Suc m) = msum d m + uint (d ! m) * SECS_PER_DAY"
  by (simp add: msum_def take_Suc_conv_app_nth)

lemma month_walk_inv:
  "month_walk d t m = Some (t', m') \<Longrightarrow>
     m \<le> m' \<and> m' < length d \<and> t' + msum d m' = t + msum d m
     \<and> t' < uint (d ! m') * SECS_PER_DAY \<and> (0 \<le> t \<longrightarrow> 0 \<le> t')"
proof (induction d t m arbitrary: t' m' rule: month_walk.induct)
  case (1 d t mon)
  from "1.prems" have in_range: "mon < length d"
    by (subst (asm) month_walk.simps) (simp split: if_splits)
  show ?case
  proof (cases "t \<ge> uint (d ! mon) * SECS_PER_DAY")
    case True
    then have rec: "month_walk d (t - uint (d ! mon) * SECS_PER_DAY) (mon + 1) = Some (t', m')"
      using "1.prems" in_range by (subst (asm) month_walk.simps) simp
    have nonneg: "0 \<le> uint (d ! mon) * SECS_PER_DAY" by (simp add: SECS_PER_DAY_def)
    from "1.IH" [OF in_range True rec] in_range True nonneg show ?thesis
      by (auto simp: msum_Suc)
  next
    case False
    then have "t' = t" "m' = mon"
      using "1.prems" in_range by (subst (asm) month_walk.simps, simp)+
    with False in_range show ?thesis by auto
  qed
qed

lemma month_walk_Some:
  "0 \<le> t \<Longrightarrow> m \<le> length d \<Longrightarrow> t + msum d m < msum d (length d) \<Longrightarrow>
     \<exists>r. month_walk d t m = Some r"
proof (induction d t m rule: month_walk.induct)
  case (1 d t mon)
  have "mon \<noteq> length d" using "1.prems" by auto
  then have in_range: "mon < length d" using "1.prems" by simp
  show ?case
  proof (cases "t \<ge> uint (d ! mon) * SECS_PER_DAY")
    case True
    have "\<exists>r. month_walk d (t - uint (d ! mon) * SECS_PER_DAY) (mon + 1) = Some r"
      using "1.IH" [OF in_range True] True in_range "1.prems" by (simp add: msum_Suc)
    then show ?thesis
      using in_range True by (subst month_walk.simps) simp
  next
    case False
    then show ?thesis using in_range by (subst month_walk.simps) simp
  qed
qed

lemma day_walk_eq: "0 \<le> t \<Longrightarrow> day_walk t n = (t mod SECS_PER_DAY, n + t div SECS_PER_DAY)"
proof (induction t n rule: day_walk.induct)
  case (1 t mday)
  show ?case
  proof (cases "t \<ge> SECS_PER_DAY")
    case True
    have "day_walk t mday = day_walk (t - SECS_PER_DAY) (mday + 1)"
      using True by (subst day_walk.simps) simp
    also have "\<dots> = ((t - SECS_PER_DAY) mod SECS_PER_DAY, mday + 1 + (t - SECS_PER_DAY) div SECS_PER_DAY)"
      using "1.IH" [OF True] True "1.prems" by simp
    also have "\<dots> = (t mod SECS_PER_DAY, mday + t div SECS_PER_DAY)"
      by (simp add: SECS_PER_DAY_def) 
    finally show ?thesis .
  next
    case False
    then show ?thesis using "1.prems" by (subst day_walk.simps) (simp add: SECS_PER_DAY_def)
  qed
qed


lemma hour_walk_eq: "0 \<le> t \<Longrightarrow> hour_walk t n = (t mod SECS_PER_HOUR, n + t div SECS_PER_HOUR)"
proof (induction t n rule: hour_walk.induct)
  case (1 t hour)
  show ?case
  proof (cases "t \<ge> SECS_PER_HOUR")
    case True
    have "hour_walk t hour = hour_walk (t - SECS_PER_HOUR) (hour + 1)"
      using True by (subst hour_walk.simps) simp
    also have "\<dots> = ((t - SECS_PER_HOUR) mod SECS_PER_HOUR,
        hour + 1 + (t - SECS_PER_HOUR) div SECS_PER_HOUR)"
      using "1.IH" [OF True] True "1.prems" by simp
    also have "\<dots> = (t mod SECS_PER_HOUR, hour + t div SECS_PER_HOUR)"
      by (simp add: SECS_PER_HOUR_def)
    finally show ?thesis .
  next
    case False
    then show ?thesis using "1.prems" by (subst hour_walk.simps) (simp add: SECS_PER_HOUR_def)
  qed
qed

lemma min_walk_eq: "0 \<le> t \<Longrightarrow> min_walk t n = (t mod SECS_PER_MIN, n + t div SECS_PER_MIN)"
proof (induction t n rule: min_walk.induct)
  case (1 t minute)
  show ?case
  proof (cases "t \<ge> SECS_PER_MIN")
    case True
    have "min_walk t minute = min_walk (t - SECS_PER_MIN) (minute + 1)"
      using True by (subst min_walk.simps) simp
    also have "\<dots> = ((t - SECS_PER_MIN) mod SECS_PER_MIN,
        minute + 1 + (t - SECS_PER_MIN) div SECS_PER_MIN)"
      using "1.IH" [OF True] True "1.prems" by simp
    also have "\<dots> = (t mod SECS_PER_MIN, minute + t div SECS_PER_MIN)"
      by (simp add: SECS_PER_MIN_def)
    finally show ?thesis .
  next
    case False
    then show ?thesis using "1.prems" by (subst min_walk.simps) (simp add: SECS_PER_MIN_def)
  qed
qed

lemma sdiv_nonneg: "0 \<le> (t::int) \<Longrightarrow> t sdiv SECS_PER_DAY = t div SECS_PER_DAY"
  by (simp add: signed_divide_int_def SECS_PER_DAY_def sgn_if)


lemma set_february_length: "length (set_february dpm_init y) = 12"
  by (simp add: set_february_def dpm_init_def)

lemma set_february_total: "msum (set_february dpm_init (int_wrap k)) 12 = clen k"
  by (simp add: set_february_def dpm_init_def msum_def clen_def SECS_PER_LEAP_def
      SECS_PER_YEAR_def SECS_PER_DAY_def)

lemma set_february_restore: "(set_february dpm_init y)[Suc 0 := 28] = dpm_init"
  by (simp add: set_february_def dpm_init_def)

lemma set_february_le_31: "m < 12 \<Longrightarrow> uint (set_february dpm_init y ! m) \<le> 31"
proof -
  have "list_all (\<lambda>w. uint w \<le> 31) (set_february dpm_init y)"
    by (simp add: set_february_def dpm_init_def)
  moreover assume "m < 12"
  ultimately show ?thesis by (simp add: list_all_length set_february_length)
qed

lemma month_table_length: "length (month_table y) = 12"
  by (simp add: month_table_def dpm_init_def)

lemma month_table_total: "msum (month_table y) 12 = ylen y"
  by (simp add: month_table_def dpm_init_def msum_def ylen_def SECS_PER_LEAP_def
      SECS_PER_YEAR_def SECS_PER_DAY_def)

section \<open>What a call computes\<close>

text \<open>
  Every call on the initial table, whatever the input: the year loops leave the counter
  at \<open>int_wrap k\<close> with \<open>t1\<close> seconds of the year that the code takes to be \<open>clen k\<close>
  long, the month loop leaves \<open>t2\<close> seconds of month \<open>m\<close> of the table that the code
  has set up for that year, and the call returns the breakdown built from them.
\<close>

lemma gmtime_resolve:
  assumes "dpm s = dpm_init"
  shows "\<exists>k t1 m t2 s1.
     E = gsecs clen k + t1 \<and> 0 \<le> t1 \<and> t1 < clen k \<and> m < 12
     \<and> month_walk (set_february dpm_init (int_wrap k)) t1 0 = Some (t2, m)
     \<and> t1 = msum (set_february dpm_init (int_wrap k)) m + t2 \<and> 0 \<le> t2
     \<and> t2 < uint (set_february dpm_init (int_wrap k) ! m) * SECS_PER_DAY
     \<and> gmtime_to_months s E = Some (s1, t2)
     \<and> dpm s1 = set_february dpm_init (int_wrap k)
     \<and> gmtime s E = Some (Some (resolved_tm E (int_wrap k) t1 m t2),
                           s\<lparr>dpm := dpm_init, tm2 := resolved_tm E (int_wrap k) t1 m t2\<rparr>)"
proof -
  obtain ta ya where fw: "year_fwd E 70 = (ta, ya)" by (cases "year_fwd E 70")
  obtain t1 y where bk: "year_back ta ya = (t1, y)" by (cases "year_back ta ya")
  have w70: "70 = int_wrap 70" by (simp add: int_wrap_def)
  from year_fwd_inv [OF w70 fw] obtain ka where
    f: "ya = int_wrap ka" "70 \<le> ka" "ta + gsecs clen ka = E + gsecs clen 70" "ta < clen ka"
      "0 \<le> E \<longrightarrow> 0 \<le> ta" "E < 0 \<longrightarrow> ka = 70"
    by blast
  from year_back_inv [OF f(1) bk] obtain k where
    b: "y = int_wrap k" "k \<le> ka" "t1 + gsecs clen k = ta + gsecs clen ka" "0 \<le> t1"
      "ta < clen ka \<longrightarrow> t1 < clen k" "0 \<le> ta \<longrightarrow> k = ka"
    by blast
  have E: "E = gsecs clen k + t1" using f b by (simp add: gsecs_70)
  have t1: "0 \<le> t1" "t1 < clen k" using f b by auto
  have tab: "set_february (dpm s) (int_wrap k) = set_february dpm_init (int_wrap k)"
    using assms by simp
  let ?d = "set_february dpm_init (int_wrap k)"
  have m0: "msum ?d 0 = 0" by (simp add: msum_def)
  have "\<exists>r. month_walk ?d t1 0 = Some r"
    using t1 by (intro month_walk_Some)
      (simp_all add: set_february_length set_february_total m0)
  then obtain t2 m where mw: "month_walk ?d t1 0 = Some (t2, m)" by auto
  note mi = month_walk_inv [OF mw]
  have m: "m < 12" using mi by (simp add: set_february_length)
  have t2: "t1 = msum ?d m + t2" "0 \<le> t2" "t2 < uint (?d ! m) * SECS_PER_DAY"
    using mi t1 m0 by auto
  have d: "day_walk t2 1 = (t2 mod SECS_PER_DAY, 1 + t2 div SECS_PER_DAY)"
    using t2(2) by (rule day_walk_eq)
  have h: "hour_walk (t2 mod SECS_PER_DAY) 0
      = ((t2 mod SECS_PER_DAY) mod SECS_PER_HOUR, (t2 mod SECS_PER_DAY) div SECS_PER_HOUR)"
    by (subst hour_walk_eq) (simp_all add: SECS_PER_DAY_def)
  have mn: "min_walk ((t2 mod SECS_PER_DAY) mod SECS_PER_HOUR) 0
      = (((t2 mod SECS_PER_DAY) mod SECS_PER_HOUR) mod SECS_PER_MIN,
         ((t2 mod SECS_PER_DAY) mod SECS_PER_HOUR) div SECS_PER_MIN)"
    by (subst min_walk_eq) (simp_all add: SECS_PER_HOUR_def)
  define s1 where "s1 = s\<lparr>dpm := ?d,
     tm2 := \<lparr>tm_sec = 0, tm_min = 0, tm_hour = 0, tm_mday = 1, tm_mon = int m,
             tm_year = int_wrap k, tm_wday = (E sdiv SECS_PER_DAY + 4) smod 7,
             tm_yday = t1 div SECS_PER_DAY, tm_isdst = - 1\<rparr>\<rparr>"
  have gm: "gmtime_to_months s E = Some (s1, t2)"
    unfolding gmtime_to_months_def s1_def
    by (simp add: Let_def fw bk tab mw b(1) sdiv_nonneg [OF t1(1)])
  have "gmtime s E = Some (Some (resolved_tm E (int_wrap k) t1 m t2),
                           s\<lparr>dpm := dpm_init, tm2 := resolved_tm E (int_wrap k) t1 m t2\<rparr>)"
    unfolding gmtime_def gm
    by (simp add: s1_def Let_def d h mn set_february_restore resolved_tm_def)
  moreover have "dpm s1 = ?d" by (simp add: s1_def)
  ultimately show ?thesis using E t1 m t2 mw gm by blast
qed

section \<open>Where the counter is the year\<close>

text \<open>
  From the year offset \<open>- 2147483648\<close> to the year offset \<open>2147481747\<close> neither the
  counter nor \<^verbatim>\<open>year + 1900\<close> leaves the \<^verbatim>\<open>int\<close>: there the code's test is the
  Gregorian rule, its table the calendar's, and its seconds the calendar's seconds.
\<close>

lemma istmleap_in_range:
  "- 2147483648 \<le> k \<Longrightarrow> k \<le> 2147481747 \<Longrightarrow> istmleap k = isleap (k + 1900)"
  by (simp add: istmleap_def int_wrap_id)

lemma clen_ylen: "- 2147483648 \<le> k \<Longrightarrow> k \<le> 2147481747 \<Longrightarrow> clen k = ylen k"
  by (simp add: clen_def ylen_def int_wrap_id istmleap_in_range)

lemma set_february_month_table:
  "- 2147483648 \<le> k \<Longrightarrow> k \<le> 2147481747 \<Longrightarrow> set_february dpm_init k = month_table k"
  by (simp add: set_february_def month_table_def istmleap_in_range)

lemma gsecs_clen_years:
  assumes "- 2147483648 \<le> y" "y \<le> 2147481748"
  shows "gsecs clen y = years_secs y"
  unfolding years_secs_gsecs using assms by (intro gsecs_cong clen_ylen) auto

section \<open>The first and the last second without overflow\<close>

lemma div_step:
  assumes "0 < (c::int)"
  shows "(n + 1) div c = n div c + (if (n + 1) mod c = 0 then 1 else 0)"
proof -
  have e: "c * (n div c) + n mod c = n" by (rule mult_div_mod_eq)
  have b: "0 \<le> n mod c" "n mod c < c" using assms by simp_all
  show ?thesis
  proof (cases "n mod c + 1 = c")
    case True
    have "n + 1 = c * (n div c + 1) + 0" using e True unfolding distrib_left by linarith
    from int_div_pos_eq [OF this] int_mod_pos_eq [OF this] assms show ?thesis by simp
  next
    case False
    then have lt: "n mod c + 1 < c" using b by simp
    have "n + 1 = c * (n div c) + (n mod c + 1)" using e by linarith
    from int_div_pos_eq [OF this _ lt] int_mod_pos_eq [OF this _ lt] b show ?thesis by simp
  qed
qed

lemma leaps_upto_step: "leaps_upto (n + 1) = leaps_upto n + (if isleap (n + 1) then 1 else 0)"
proof -
  have "(n + 1) mod 4 = (n + 1) mod 100 mod 4" by (simp add: mod_mod_cancel)
  then have 4: "(n + 1) mod 100 = 0 \<Longrightarrow> (n + 1) mod 4 = 0" by simp
  have "(n + 1) mod 100 = (n + 1) mod 400 mod 100" by (simp add: mod_mod_cancel)
  then have 100: "(n + 1) mod 400 = 0 \<Longrightarrow> (n + 1) mod 100 = 0" by simp
  have d4: "(n + 1) div 4 = n div 4 + (if (n + 1) mod 4 = 0 then 1 else 0)"
    by (rule div_step) simp
  have d100: "(n + 1) div 100 = n div 100 + (if (n + 1) mod 100 = 0 then 1 else 0)"
    by (rule div_step) simp
  have d400: "(n + 1) div 400 = n div 400 + (if (n + 1) mod 400 = 0 then 1 else 0)"
    by (rule div_step) simp
  show ?thesis
  proof (cases "(n + 1) mod 400 = 0")
    case True
    with 100 4 show ?thesis unfolding leaps_upto_def isleap_def d4 d100 d400 by simp
  next
    case n400: False
    show ?thesis
    proof (cases "(n + 1) mod 100 = 0")
      case True
      with 4 n400 show ?thesis unfolding leaps_upto_def isleap_def d4 d100 d400 by simp
    next
      case False
      with n400 show ?thesis unfolding leaps_upto_def isleap_def d4 d100 d400 by simp
    qed
  qed
qed

lemma ylen_leaps: "ylen y = SECS_PER_DAY * (365 + leaps_upto (y + 1900) - leaps_upto (y + 1899))"
proof -
  have e: "y + 1899 + 1 = y + 1900" by simp
  have l: "leaps_upto (y + 1900) = leaps_upto (y + 1899) + (if isleap (y + 1900) then 1 else 0)"
    using leaps_upto_step [of "y + 1899"] unfolding e .
  show ?thesis
    unfolding l by (simp add: ylen_def SECS_PER_LEAP_def SECS_PER_YEAR_def)
qed

lemma years_secs_closed:
  "years_secs y = SECS_PER_DAY * (365 * (y - 70) + leaps_upto (y + 1899) - 477)"
proof (induction y rule: int_induct [where k = 70])
  case base
  show ?case by (simp add: years_secs_def leaps_upto_def)
next
  case (step1 i)
  have "years_secs (i + 1) = years_secs i + ylen i"
    by (simp add: years_secs_gsecs gsecs_step)
  with step1 show ?case by (simp add: ylen_leaps algebra_simps)
next
  case (step2 i)
  have "years_secs (i - 1) = years_secs i - ylen (i - 1)"
    by (simp add: years_secs_gsecs gsecs_prev)
  with step2 show ?case by (simp add: ylen_leaps algebra_simps)
qed

lemma years_secs_int_min: "years_secs (- 2147483648) = - 67768040609740800"
  by (simp add: years_secs_closed leaps_upto_def SECS_PER_DAY_def)

lemma years_secs_int_max: "years_secs 2147481748 = 67767976233532800"
  by (simp add: years_secs_closed leaps_upto_def SECS_PER_DAY_def)

lemma counter_in_range:
  assumes "E = gsecs clen k + t1" "0 \<le> t1" "t1 < clen k"
    and "- 67768040609740800 \<le> E" "E < 67767976233532800"
  shows "- 2147483648 \<le> k" "k \<le> 2147481747"
proof -
  show "- 2147483648 \<le> k"
  proof (rule ccontr)
    assume "\<not> - 2147483648 \<le> k"
    then have "k + 1 \<le> - 2147483648" by simp
    from gsecs_mono [OF year_lengths_clen this]
    have "gsecs clen k + clen k \<le> years_secs (- 2147483648)"
      by (simp add: gsecs_step gsecs_clen_years)
    with assms show False by (simp add: years_secs_int_min)
  qed
  show "k \<le> 2147481747"
  proof (rule ccontr)
    assume "\<not> k \<le> 2147481747"
    then have "2147481748 \<le> k" by simp
    from gsecs_mono [OF year_lengths_clen this]
    have "years_secs 2147481748 \<le> gsecs clen k"
      by (simp add: gsecs_clen_years)
    with assms show False by (simp add: years_secs_int_max)
  qed
qed

text \<open>
  A call on the initial table with an input from the first second of the year offset
  \<open>- 2147483648\<close> to the last second of the year offset \<open>2147481747\<close>: the calendar
  year \<open>y\<close> of the input and the \<open>t1\<close> seconds into it, the month \<open>m\<close> and the \<open>t2\<close>
  seconds into it.
\<close>

lemma gmtime_resolve_cal:
  assumes "dpm s = dpm_init" "- 67768040609740800 \<le> E" "E < 67767976233532800"
  shows "\<exists>y t1 m t2.
     - 2147483648 \<le> y \<and> y \<le> 2147481747
     \<and> E = years_secs y + t1 \<and> 0 \<le> t1 \<and> t1 < ylen y \<and> m < 12
     \<and> t1 = msum (month_table y) m + t2 \<and> 0 \<le> t2
     \<and> t2 < uint (month_table y ! m) * SECS_PER_DAY
     \<and> gmtime s E = Some (Some (resolved_tm E y t1 m t2),
                           s\<lparr>dpm := dpm_init, tm2 := resolved_tm E y t1 m t2\<rparr>)"
proof -
  from gmtime_resolve [OF assms(1), of E] obtain k t1 m t2 where
    r: "E = gsecs clen k + t1" "0 \<le> t1" "t1 < clen k" "m < 12"
      "t1 = msum (set_february dpm_init (int_wrap k)) m + t2" "0 \<le> t2"
      "t2 < uint (set_february dpm_init (int_wrap k) ! m) * SECS_PER_DAY"
      "gmtime s E = Some (Some (resolved_tm E (int_wrap k) t1 m t2),
                           s\<lparr>dpm := dpm_init, tm2 := resolved_tm E (int_wrap k) t1 m t2\<rparr>)"
    by blast
  note k = counter_in_range [OF r(1-3) assms(2,3)]
  have w: "int_wrap k = k" using k by (simp add: int_wrap_id)
  have "k \<le> 2147481748" using k by simp
  note ys = gsecs_clen_years [OF k(1) this]
  from r k show ?thesis
    unfolding w ys clen_ylen [OF k] set_february_month_table [OF k] by blast
qed

section \<open>Evaluation, clock fields and the order of months\<close>

lemmas gmtime_eval_defs = gmtime_def gmtime_to_months_def Let_def set_february_def dpm_init_def
  istmleap_def isleap_def int_wrap_def
  SECS_PER_DAY_def SECS_PER_HOUR_def SECS_PER_MIN_def SECS_PER_YEAR_def SECS_PER_LEAP_def
  year_fwd.simps year_back.simps month_walk.simps day_walk.simps hour_walk.simps
  min_walk.simps signed_divide_int_def signed_modulo_int_def

lemmas recompose_eval_defs = recompose_def civil_def years_secs_def ylen_def msum_def
  upto.simps month_table_def dpm_init_def isleap_def
  SECS_PER_DAY_def SECS_PER_HOUR_def SECS_PER_MIN_def SECS_PER_YEAR_def SECS_PER_LEAP_def

lemma clock_recompose:
  "(t2 div SECS_PER_DAY) * SECS_PER_DAY + ((t2 mod SECS_PER_DAY) div SECS_PER_HOUR) * SECS_PER_HOUR
     + (((t2 mod SECS_PER_DAY) mod SECS_PER_HOUR) div SECS_PER_MIN) * SECS_PER_MIN
     + ((t2 mod SECS_PER_DAY) mod SECS_PER_HOUR) mod SECS_PER_MIN = t2"
  by (simp add: algebra_simps)

lemma recompose_resolved:
  "recompose (resolved_tm E y t1 m t2) = years_secs y + msum (month_table y) m + t2"
  using clock_recompose [of t2] by (simp add: recompose_def resolved_tm_def)

lemma msum_mono: "m \<le> m' \<Longrightarrow> m' \<le> length d \<Longrightarrow> msum d m \<le> msum d m'"
proof (induction m')
  case 0
  then show ?case by simp
next
  case (Suc k)
  show ?case
  proof (cases "m = Suc k")
    case True
    then show ?thesis by simp
  next
    case False
    with Suc.prems have "m \<le> k" "k < length d" by simp_all
    moreover have "0 \<le> uint (d ! k) * SECS_PER_DAY" by (simp add: SECS_PER_DAY_def)
    ultimately show ?thesis using Suc.IH by (simp add: msum_Suc)
  qed
qed

lemma month_order:
  assumes "msum d m1 + a1 < msum d m2 + a2" "0 \<le> a1" "a2 < uint (d ! m2) * SECS_PER_DAY"
    "m1 \<le> length d" "m2 < length d"
  shows "m1 \<le> m2"
proof (rule ccontr)
  assume "\<not> m1 \<le> m2"
  then have "Suc m2 \<le> m1" by simp
  from msum_mono [OF this assms(4)] assms(5)
  have "msum d m2 + uint (d ! m2) * SECS_PER_DAY \<le> msum d m1"
    by (simp add: msum_Suc)
  with assms show False by simp
qed

lemma div_mod_order:
  assumes "(a::int) < b" "0 < k"
  shows "a div k < b div k \<or> (a div k = b div k \<and> a mod k < b mod k)"
proof -
  have le: "a div k \<le> b div k" using assms by (simp add: zdiv_mono1)
  show ?thesis
  proof (cases "a div k = b div k")
    case True
    have "a mod k = a - k * (a div k)" "b mod k = b - k * (b div k)"
      by (simp_all add: minus_mult_div_eq_mod)
    with True assms(1) show ?thesis by simp
  next
    case False
    with le show ?thesis by simp
  qed
qed

lemma clock_order:
  assumes "(a::int) < b"
  shows "lex_le
     [1 + a div SECS_PER_DAY, (a mod SECS_PER_DAY) div SECS_PER_HOUR,
      ((a mod SECS_PER_DAY) mod SECS_PER_HOUR) div SECS_PER_MIN,
      ((a mod SECS_PER_DAY) mod SECS_PER_HOUR) mod SECS_PER_MIN]
     [1 + b div SECS_PER_DAY, (b mod SECS_PER_DAY) div SECS_PER_HOUR,
      ((b mod SECS_PER_DAY) mod SECS_PER_HOUR) div SECS_PER_MIN,
      ((b mod SECS_PER_DAY) mod SECS_PER_HOUR) mod SECS_PER_MIN]"
proof -
  have D: "0 < SECS_PER_DAY" and H: "0 < SECS_PER_HOUR" and M: "0 < SECS_PER_MIN"
    by (simp_all add: SECS_PER_DAY_def SECS_PER_HOUR_def SECS_PER_MIN_def)
  from div_mod_order [OF assms D] show ?thesis
  proof
    assume "a div SECS_PER_DAY < b div SECS_PER_DAY"
    then show ?thesis by simp
  next
    assume d: "a div SECS_PER_DAY = b div SECS_PER_DAY
      \<and> a mod SECS_PER_DAY < b mod SECS_PER_DAY"
    from div_mod_order [OF conjunct2 [OF d] H] show ?thesis
    proof
      assume "a mod SECS_PER_DAY div SECS_PER_HOUR < b mod SECS_PER_DAY div SECS_PER_HOUR"
      with d show ?thesis by simp
    next
      assume h: "a mod SECS_PER_DAY div SECS_PER_HOUR = b mod SECS_PER_DAY div SECS_PER_HOUR
        \<and> a mod SECS_PER_DAY mod SECS_PER_HOUR < b mod SECS_PER_DAY mod SECS_PER_HOUR"
      from div_mod_order [OF conjunct2 [OF h] M] d h show ?thesis by auto
    qed
  qed
qed

lemma clock_ranges:
  "0 \<le> ((t2 mod SECS_PER_DAY) mod SECS_PER_HOUR) mod SECS_PER_MIN"
  "((t2 mod SECS_PER_DAY) mod SECS_PER_HOUR) mod SECS_PER_MIN \<le> 59"
  "0 \<le> ((t2 mod SECS_PER_DAY) mod SECS_PER_HOUR) div SECS_PER_MIN"
  "((t2 mod SECS_PER_DAY) mod SECS_PER_HOUR) div SECS_PER_MIN \<le> 59"
  "0 \<le> (t2 mod SECS_PER_DAY) div SECS_PER_HOUR"
  "(t2 mod SECS_PER_DAY) div SECS_PER_HOUR \<le> 23"
proof -
  have a: "0 \<le> t2 mod SECS_PER_DAY" "t2 mod SECS_PER_DAY < 86400"
    by (simp_all add: SECS_PER_DAY_def)
  have b: "0 \<le> (t2 mod SECS_PER_DAY) mod SECS_PER_HOUR" "(t2 mod SECS_PER_DAY) mod SECS_PER_HOUR < 3600"
    by (simp_all add: SECS_PER_HOUR_def)
  show "0 \<le> ((t2 mod SECS_PER_DAY) mod SECS_PER_HOUR) mod SECS_PER_MIN"
    "((t2 mod SECS_PER_DAY) mod SECS_PER_HOUR) mod SECS_PER_MIN \<le> 59"
    by (simp_all add: SECS_PER_MIN_def)
  show "0 \<le> ((t2 mod SECS_PER_DAY) mod SECS_PER_HOUR) div SECS_PER_MIN"
    using b(1) by (simp add: SECS_PER_MIN_def)
  show "((t2 mod SECS_PER_DAY) mod SECS_PER_HOUR) div SECS_PER_MIN \<le> 59"
    using b(2) by (simp add: SECS_PER_MIN_def)
  show "0 \<le> (t2 mod SECS_PER_DAY) div SECS_PER_HOUR"
    using a(1) by (simp add: SECS_PER_HOUR_def)
  show "(t2 mod SECS_PER_DAY) div SECS_PER_HOUR \<le> 23"
    using a(2) by (simp add: SECS_PER_HOUR_def)
qed

lemma mday_range:
  assumes "0 \<le> t2" "t2 < n * SECS_PER_DAY"
  shows "1 \<le> 1 + t2 div SECS_PER_DAY" "1 + t2 div SECS_PER_DAY \<le> n"
proof -
  show "1 \<le> 1 + t2 div SECS_PER_DAY" using assms(1) by (simp add: SECS_PER_DAY_def)
  have "t2 div SECS_PER_DAY < n"
    using assms(2) by (simp add: SECS_PER_DAY_def div_less_iff_less_mult)
  then show "1 + t2 div SECS_PER_DAY \<le> n" by simp
qed

lemma yday_range:
  assumes "0 \<le> t1" "t1 < clen y"
  shows "0 \<le> t1 div SECS_PER_DAY" "t1 div SECS_PER_DAY \<le> 365"
proof -
  show "0 \<le> t1 div SECS_PER_DAY" using assms(1) by (simp add: SECS_PER_DAY_def)
  have "t1 < 366 * SECS_PER_DAY"
    using assms(2) clen_bounds(3) [of y] by (simp add: SECS_PER_LEAP_def SECS_PER_YEAR_def)
  then have "t1 div SECS_PER_DAY < 366"
    by (simp add: SECS_PER_DAY_def div_less_iff_less_mult)
  then show "t1 div SECS_PER_DAY \<le> 365" by simp
qed


lemma month_order_cal:
  assumes "msum (month_table y) m1 + a1 < msum (month_table y) m2 + a2" "0 \<le> a1"
    "a2 < uint (month_table y ! m2) * SECS_PER_DAY" "m1 < 12" "m2 < 12"
  shows "m1 \<le> m2"
  using assms by (intro month_order [of "month_table y" m1 a1 m2 a2])
    (simp_all add: month_table_length)

lemma month_table_le_31: "m < 12 \<Longrightarrow> uint (month_table y ! m) \<le> 31"
proof -
  have "list_all (\<lambda>w. uint w \<le> 31) (month_table y)"
    by (simp add: month_table_def dpm_init_def)
  moreover assume "m < 12"
  ultimately show ?thesis by (simp add: list_all_length month_table_length)
qed

section \<open>Round trip\<close>

text \<open>
  Whatever the input, the seconds recomposed from a returned breakdown stay below
  \<open>2 ^ 56\<close>: the year of a breakdown is an \<^verbatim>\<open>int\<close>.
\<close>

lemma recompose_bounded:
  assumes "dpm s = dpm_init" "gmtime s E = Some (Some r, s')"
  shows "recompose r < 72057594037927936"
proof -
  from gmtime_resolve [OF assms(1), of E] assms(2) obtain k t1 m t2 where
    m: "m < 12" and t2: "t2 < uint (set_february dpm_init (int_wrap k) ! m) * SECS_PER_DAY"
    and r: "r = resolved_tm E (int_wrap k) t1 m t2"
    by auto
  let ?y = "int_wrap k"
  have y: "?y \<le> 2147483647" by (rule int_wrap_range)
  have "years_secs ?y \<le> 2147483577 * SECS_PER_LEAP"
  proof (cases "70 \<le> ?y")
    case True
    from gsecs_upper [OF year_lengths_ylen True] y show ?thesis
      by (simp add: years_secs_gsecs SECS_PER_LEAP_def SECS_PER_YEAR_def SECS_PER_DAY_def)
  next
    case False
    then have "?y \<le> 70" by simp
    from gsecs_before [OF year_lengths_ylen this] False show ?thesis
      by (simp add: years_secs_gsecs SECS_PER_LEAP_def SECS_PER_YEAR_def SECS_PER_DAY_def)
  qed
  moreover have "msum (month_table ?y) m \<le> SECS_PER_LEAP"
    using msum_mono [of m 12 "month_table ?y"] m ylen_pos(3) [of ?y]
    by (simp add: month_table_length month_table_total)
  moreover have "t2 < 31 * SECS_PER_DAY"
    using t2 set_february_le_31 [OF m, of ?y] by (simp add: SECS_PER_DAY_def)
  ultimately show ?thesis
    by (simp add: r recompose_resolved SECS_PER_LEAP_def SECS_PER_YEAR_def SECS_PER_DAY_def)
qed

text \<open>
  The round trip fails at \<open>2 ^ 56\<close> seconds: the year counter has wrapped around, and
  the breakdown stands for fewer seconds than the input.
\<close>

theorem gmtime_roundtrip_counterexample:
  "map_option recompose (gmtime_tm statics_init 72057594037927936) \<noteq> Some 72057594037927936"
proof -
  have d: "dpm statics_init = dpm_init" by (simp add: statics_init_def)
  from gmtime_resolve [OF d, of 72057594037927936] obtain r s' where
    g: "gmtime statics_init 72057594037927936 = Some (Some r, s')" by blast
  from recompose_bounded [OF d g] g show ?thesis by (simp add: gmtime_tm_def)
qed

text \<open>
  C1, for the inputs on which no operation on the year leaves the \<^verbatim>\<open>int\<close>: for
  every input \<open>E\<close>, positive, zero or negative, from \<open>- 67768040609740800\<close>, the first
  second of the year offset \<open>- 2147483648\<close>, to \<open>67767976233532799\<close>, the last second of
  the year offset \<open>2147481747\<close>, the seconds recomposed from the breakdown that
  \<^verbatim>\<open>gmtime\<close> returns are \<open>E\<close> again.
\<close>

theorem gmtime_roundtrip:
  assumes "dpm s = dpm_init" "- 67768040609740800 \<le> E" "E < 67767976233532800"
  shows "\<exists>r s'. gmtime s E = Some (Some r, s') \<and> recompose r = E"
proof -
  from gmtime_resolve_cal [OF assms] obtain y t1 m t2 where
    "E = years_secs y + t1" "t1 = msum (month_table y) m + t2"
    "gmtime s E = Some (Some (resolved_tm E y t1 m t2),
                        s\<lparr>dpm := dpm_init, tm2 := resolved_tm E y t1 m t2\<rparr>)"
    by blast
  then show ?thesis by (simp add: recompose_resolved)
qed

theorem gmtime_roundtrip_witness:
  "dpm statics_init = dpm_init \<and> - 67768040609740800 \<le> (- 86401 :: int)
   \<and> (- 86401 :: int) < 67767976233532800
   \<and> (\<exists>r s'. gmtime statics_init (- 86401) = Some (Some r, s') \<and> recompose r = - 86401)"
  using gmtime_roundtrip [of statics_init "- 86401"] by (simp add: statics_init_def)

section \<open>Field ranges\<close>

text \<open>
  From the year offset \<open>2147481748\<close> on, \<^verbatim>\<open>year + 1900\<close> wraps around in \<^verbatim>\<open>istmleap\<close>.
  For the next 52 years the wrapped year is a leap year exactly when the year is; the
  year 2147483700 (offset \<open>2147481800\<close>) is the first that the code takes for a leap
  year while it is none.
\<close>

lemma clen_ylen_beyond:
  assumes "2147481748 \<le> k" "k \<le> 2147481799"
  shows "clen k = ylen k"
proof -
  have "list_all (\<lambda>k. clen k = ylen k) [2147481748..2147481799]"
    by (simp add: upto.simps clen_def ylen_def istmleap_def isleap_def int_wrap_def)
  then have "\<forall>k\<in>set [2147481748..2147481799]. clen k = ylen k"
    by (simp only: list_all_iff)
  moreover have "k \<in> set [2147481748..2147481799]"
    using assms by (simp only: set_upto atLeastAtMost_iff)
  ultimately show ?thesis by (rule bspec)
qed

lemma gsecs_clen_2147481800: "gsecs clen 2147481800 = 67767977874528000"
proof -
  have "gsecs clen 2147481800 = gsecs ylen 2147481800"
  proof (rule gsecs_cong)
    fix k :: int
    assume "min 2147481800 70 \<le> k" "k < max 2147481800 70"
    then have k: "70 \<le> k" "k \<le> 2147481799" by simp_all
    show "clen k = ylen k"
    proof (cases "k \<le> 2147481747")
      case True
      with k show ?thesis by (intro clen_ylen) simp_all
    next
      case False
      with k show ?thesis by (intro clen_ylen_beyond) simp_all
    qed
  qed
  then show ?thesis
    by (simp add: years_secs_gsecs [symmetric] years_secs_closed leaps_upto_def SECS_PER_DAY_def)
qed

lemma clen_2147481800: "clen 2147481800 = SECS_PER_LEAP"
  by (simp add: clen_def istmleap_def isleap_def int_wrap_def)

text \<open>
  The call on \<open>67767977879625600\<close>, the seconds of the 60th day of the year 2147483700,
  returns the 29th of February of a year with 28 days in February.
\<close>

theorem gmtime_mday_counterexample:
  "map_option mday_in_month (gmtime_tm statics_init 67767977879625600) = Some False"
proof -
  have d: "dpm statics_init = dpm_init" by (simp add: statics_init_def)
  from gmtime_resolve [OF d, of 67767977879625600] obtain k t1 m t2 where
    E: "67767977879625600 = gsecs clen k + t1" and t1: "0 \<le> t1" "t1 < clen k"
    and mw: "month_walk (set_february dpm_init (int_wrap k)) t1 0 = Some (t2, m)"
    and g: "gmtime statics_init 67767977879625600
        = Some (Some (resolved_tm 67767977879625600 (int_wrap k) t1 m t2),
            statics_init\<lparr>dpm := dpm_init,
              tm2 := resolved_tm 67767977879625600 (int_wrap k) t1 m t2\<rparr>)"
    by blast
  have "gsecs clen k + t1 = gsecs clen 2147481800 + 5097600"
    using E by (simp add: gsecs_clen_2147481800)
  from year_unique [OF year_lengths_clen this t1]
  have k: "k = 2147481800" and t1': "t1 = 5097600"
    by (simp_all add: clen_2147481800 SECS_PER_LEAP_def SECS_PER_YEAR_def SECS_PER_DAY_def)
  have w: "int_wrap 2147481800 = 2147481800" by (simp add: int_wrap_def)
  have "month_walk (set_february dpm_init 2147481800) 5097600 0 = Some (2419200, 1)"
    by (simp add: set_february_def dpm_init_def istmleap_def isleap_def int_wrap_def
        month_walk.simps SECS_PER_DAY_def)
  with mw have m: "t2 = 2419200" "m = 1" by (simp_all add: k t1' w)
  have "mday_in_month (resolved_tm 67767977879625600 2147481800 5097600 1 2419200) = False"
    by (simp add: mday_in_month_def resolved_tm_def days_in_month_def month_table_def
        dpm_init_def isleap_def SECS_PER_DAY_def)
  with g show ?thesis by (simp add: gmtime_tm_def k t1' w m)
qed

text \<open>
  C2, with the length of the month for the inputs on which no operation on the year
  leaves the \<^verbatim>\<open>int\<close>: for every input the returned breakdown has seconds and minutes
  in 0..59, hours in 0..23, the day of the month in 1..31, the month in 0..11 and the
  day of the year in 0..365; for every input from \<open>- 67768040609740800\<close> to
  \<open>67767976233532799\<close> the day of the month is at most the length of the resolved month.
\<close>

theorem gmtime_field_ranges:
  "dpm s = dpm_init \<Longrightarrow>
   \<exists>r s'. gmtime s E = Some (Some r, s')
     \<and> 0 \<le> tm_sec r \<and> tm_sec r \<le> 59 \<and> 0 \<le> tm_min r \<and> tm_min r \<le> 59
     \<and> 0 \<le> tm_hour r \<and> tm_hour r \<le> 23
     \<and> 1 \<le> tm_mday r \<and> tm_mday r \<le> 31
     \<and> (- 67768040609740800 \<le> E \<and> E < 67767976233532800 \<longrightarrow>
          tm_mday r \<le> days_in_month (tm_year r) (nat (tm_mon r)))
     \<and> 0 \<le> tm_mon r \<and> tm_mon r \<le> 11
     \<and> 0 \<le> tm_yday r \<and> tm_yday r \<le> 365"
proof -
  assume d: "dpm s = dpm_init"
  from gmtime_resolve [OF d, of E] obtain k t1 m t2 where
    t1: "0 \<le> t1" "t1 < clen k" and m: "m < 12"
    and t2: "0 \<le> t2" "t2 < uint (set_february dpm_init (int_wrap k) ! m) * SECS_PER_DAY"
    and g: "gmtime s E = Some (Some (resolved_tm E (int_wrap k) t1 m t2),
                        s\<lparr>dpm := dpm_init, tm2 := resolved_tm E (int_wrap k) t1 m t2\<rparr>)"
    by blast
  note md = mday_range [OF t2]
  have 31: "1 + t2 div SECS_PER_DAY \<le> 31"
    using md(2) set_february_le_31 [OF m, of "int_wrap k"] by linarith
  have cal: "1 + t2 div SECS_PER_DAY \<le> days_in_month (int_wrap k) m"
    if "- 67768040609740800 \<le> E" "E < 67767976233532800"
  proof -
    from gmtime_resolve_cal [OF d that] g obtain y t1' m' t2' where
      c: "t2' < uint (month_table y ! m') * SECS_PER_DAY" "0 \<le> t2'"
      and e: "resolved_tm E (int_wrap k) t1 m t2 = resolved_tm E y t1' m' t2'"
      by auto
    from e have "int_wrap k = y" "m = m'" "1 + t2 div SECS_PER_DAY = 1 + t2' div SECS_PER_DAY"
      by (simp_all add: resolved_tm_def)
    with mday_range [OF c(2,1)] show ?thesis by (simp add: days_in_month_def)
  qed
  from g m md 31 cal yday_range [OF t1] clock_ranges [of t2] show ?thesis
    by (simp add: resolved_tm_def)
qed

theorem gmtime_field_ranges_witness:
  "dpm statics_init = dpm_init
   \<and> (\<exists>r s'. gmtime statics_init 951782399 = Some (Some r, s')
     \<and> 0 \<le> tm_sec r \<and> tm_sec r \<le> 59 \<and> 0 \<le> tm_min r \<and> tm_min r \<le> 59
     \<and> 0 \<le> tm_hour r \<and> tm_hour r \<le> 23
     \<and> 1 \<le> tm_mday r \<and> tm_mday r \<le> 31
     \<and> tm_mday r \<le> days_in_month (tm_year r) (nat (tm_mon r))
     \<and> 0 \<le> tm_mon r \<and> tm_mon r \<le> 11
     \<and> 0 \<le> tm_yday r \<and> tm_yday r \<le> 365)"
  using gmtime_field_ranges [of statics_init 951782399] by (simp add: statics_init_def)

section \<open>The weekday\<close>






section \<open>Order\<close>

text \<open>
  At \<open>2 ^ 56\<close> seconds the year counter has passed \<open>2147483647\<close> and not yet come
  round to 70 again: the year of the breakdown is below 70.
\<close>

lemma wrapped_year:
  assumes "dpm s = dpm_init" "gmtime s 72057594037927936 = Some (Some r, s')"
  shows "tm_year r < 70"
proof -
  from gmtime_resolve [OF assms(1), of 72057594037927936] assms(2) obtain k t1 m t2 where
    E: "72057594037927936 = gsecs clen k + t1" and t1: "0 \<le> t1" "t1 < clen k"
    and r: "r = resolved_tm 72057594037927936 (int_wrap k) t1 m t2"
    by auto
  have k70: "70 \<le> k"
  proof (rule ccontr)
    assume "\<not> 70 \<le> k"
    then have "k + 1 \<le> 70" by simp
    from gsecs_mono [OF year_lengths_clen this] have "gsecs clen k + clen k \<le> 0"
      by (simp add: gsecs_step gsecs_70)
    with E t1 show False by simp
  qed
  have "(k - 70) * SECS_PER_YEAR \<le> 72057594037927936"
    using gsecs_lower [OF year_lengths_clen k70] E t1 by simp
  then have hi: "k < 4294967366"
    by (simp add: SECS_PER_YEAR_def SECS_PER_DAY_def)
  have "70 \<le> k + 1" using k70 by simp
  from gsecs_upper [OF year_lengths_clen this] E t1
  have "72057594037927936 < (k + 1 - 70) * SECS_PER_LEAP"
    by (simp add: gsecs_step)
  then have lo: "2147483648 \<le> k"
    by (simp add: SECS_PER_LEAP_def SECS_PER_YEAR_def SECS_PER_DAY_def)
  from int_wrap_high [OF lo] hi have "int_wrap k = k - 4294967296" by simp
  with hi show ?thesis by (simp add: r resolved_tm_def)
qed

text \<open>
  The inputs 0 and \<open>2 ^ 56\<close>: the later one has the breakdown that comes first.
\<close>

theorem gmtime_monotone_counterexample:
  "gmtime_tm statics_init 0 \<noteq> None \<and> gmtime_tm statics_init 72057594037927936 \<noteq> None
   \<and> \<not> lex_le (tm_key (the (gmtime_tm statics_init 0)))
          (tm_key (the (gmtime_tm statics_init 72057594037927936)))"
proof -
  have d: "dpm statics_init = dpm_init" by (simp add: statics_init_def)
  have a: "gmtime_tm statics_init 0 = Some \<lparr>tm_sec = 0, tm_min = 0, tm_hour = 0, tm_mday = 1,
      tm_mon = 0, tm_year = 70, tm_wday = 4, tm_yday = 0, tm_isdst = - 1\<rparr>"
    by (simp add: gmtime_tm_def statics_init_def gmtime_eval_defs)
  from gmtime_resolve [OF d, of 72057594037927936] obtain r s' where
    g: "gmtime statics_init 72057594037927936 = Some (Some r, s')" by blast
  from g have b: "gmtime_tm statics_init 72057594037927936 = Some r"
    by (simp add: gmtime_tm_def)
  from wrapped_year [OF d g] show ?thesis by (simp add: a b tm_key_def)
qed

text \<open>
  C7, for the inputs on which no operation on the year leaves the \<^verbatim>\<open>int\<close>: for
  inputs \<open>E1 < E2\<close> from \<open>- 67768040609740800\<close> to \<open>67767976233532799\<close> both calls
  return a breakdown, and the breakdown of \<open>E2\<close> is lexicographically at least the
  breakdown of \<open>E1\<close>, comparing year offset, month, day of the month, hours, minutes
  and seconds in this order.
\<close>

theorem gmtime_monotone:
  assumes "dpm s1 = dpm_init" "dpm s2 = dpm_init"
    and "- 67768040609740800 \<le> E1" "E1 < E2" "E2 < 67767976233532800"
  shows "\<exists>r1 s1' r2 s2'. gmtime s1 E1 = Some (Some r1, s1') \<and> gmtime s2 E2 = Some (Some r2, s2')
     \<and> lex_le (tm_key r1) (tm_key r2)"
proof -
  have b1: "E1 < 67767976233532800" and b2: "- 67768040609740800 \<le> E2"
    using assms(3-5) by simp_all
  from gmtime_resolve_cal [OF assms(1,3) b1] obtain y1 a1 m1 b1 where
    1: "E1 = years_secs y1 + a1" "0 \<le> a1" "a1 < ylen y1" "m1 < 12"
       "a1 = msum (month_table y1) m1 + b1" "0 \<le> b1"
       "b1 < uint (month_table y1 ! m1) * SECS_PER_DAY"
    and g1: "gmtime s1 E1 = Some (Some (resolved_tm E1 y1 a1 m1 b1),
        s1\<lparr>dpm := dpm_init, tm2 := resolved_tm E1 y1 a1 m1 b1\<rparr>)"
    by blast
  from gmtime_resolve_cal [OF assms(2) b2 assms(5)] obtain y2 a2 m2 b2 where
    2: "E2 = years_secs y2 + a2" "0 \<le> a2" "a2 < ylen y2" "m2 < 12"
       "a2 = msum (month_table y2) m2 + b2" "0 \<le> b2"
       "b2 < uint (month_table y2 ! m2) * SECS_PER_DAY"
    and g2: "gmtime s2 E2 = Some (Some (resolved_tm E2 y2 a2 m2 b2),
        s2\<lparr>dpm := dpm_init, tm2 := resolved_tm E2 y2 a2 m2 b2\<rparr>)"
    by blast
  have y: "y1 \<le> y2"
    using assms(4) 1(1,2) 2(1,3)
    by (intro year_order [OF year_lengths_ylen, of y1 a1 y2 a2])
       (simp_all add: years_secs_gsecs)
  have "lex_le (tm_key (resolved_tm E1 y1 a1 m1 b1)) (tm_key (resolved_tm E2 y2 a2 m2 b2))"
  proof (cases "y1 = y2")
    case False
    with y show ?thesis by (simp add: tm_key_def resolved_tm_def)
  next
    case True
    with assms(4) 1(1) 2(1) have a: "a1 < a2" by simp
    have m: "m1 \<le> m2"
      using a 1(4-6) 2(4,5,7) True
      by (intro month_order_cal [of y2 m1 b1 m2 b2]) simp_all
    show ?thesis
    proof (cases "m1 = m2")
      case False
      with m True show ?thesis by (simp add: tm_key_def resolved_tm_def)
    next
      case same: True
      with a 1(5) 2(5) True have "b1 < b2" by simp
      from clock_order [OF this] True same show ?thesis
        by (simp add: tm_key_def resolved_tm_def)
    qed
  qed
  with g1 g2 show ?thesis by blast
qed

theorem gmtime_monotone_witness:
  "dpm statics_init = dpm_init \<and> - 67768040609740800 \<le> (951782399 :: int)
   \<and> (951782399 :: int) < 951782400 \<and> (951782400 :: int) < 67767976233532800
   \<and> (\<exists>r1 s1' r2 s2'. gmtime statics_init 951782399 = Some (Some r1, s1')
        \<and> gmtime statics_init 951782400 = Some (Some r2, s2')
        \<and> tm_key r1 = [100, 1, 28, 23, 59, 59] \<and> tm_key r2 = [100, 1, 29, 0, 0, 0]
        \<and> lex_le (tm_key r1) (tm_key r2))"
proof -
  have d: "dpm statics_init = dpm_init" by (simp add: statics_init_def)
  have a: "map_option tm_key (gmtime_tm statics_init 951782399) = Some [100, 1, 28, 23, 59, 59]"
    by (simp add: gmtime_tm_def statics_init_def tm_key_def gmtime_eval_defs)
  have b: "map_option tm_key (gmtime_tm statics_init 951782400) = Some [100, 1, 29, 0, 0, 0]"
    by (simp add: gmtime_tm_def statics_init_def tm_key_def gmtime_eval_defs)
  from gmtime_monotone [OF d d, of 951782399 951782400] a b d show ?thesis
    by (auto simp: gmtime_tm_def)
qed

section \<open>Years beyond the range of int\<close>

text \<open>Whatever the static objects and the input, a call that returns does not return \<^verbatim>\<open>NULL\<close>.\<close>

lemma gmtime_never_null: "gmtime s E = Some (p, s') \<Longrightarrow> p \<noteq> None"
  by (auto simp: gmtime_def Let_def split: option.splits prod.splits)

lemma years_secs_mono: "y \<le> y' \<Longrightarrow> years_secs y \<le> years_secs y'"
  unfolding years_secs_gsecs by (rule gsecs_mono [OF year_lengths_ylen])

text \<open>
  C8 at the inputs from \<open>2 ^ 62\<close> seconds on. Such an input is not before the first
  second of the year offset \<open>2147483648\<close>, so that the offset of every year that holds
  it is above 2147483647, the largest \<^verbatim>\<open>int\<close>: the resolved year does not fit. The
  call still returns a pointer to a breakdown, not \<^verbatim>\<open>NULL\<close>, and the \<^verbatim>\<open>tm_year\<close> of
  that breakdown is an \<^verbatim>\<open>int\<close>, the wrapped counter. No path of the source returns
  \<^verbatim>\<open>NULL\<close>.
\<close>

theorem gmtime_year_beyond_int:
  assumes "dpm s = dpm_init" "2 ^ 62 \<le> E"
  shows "\<exists>r s'. gmtime s E = Some (Some r, s') \<and> tm_year r \<le> 2147483647
     \<and> years_secs 2147483648 \<le> E
     \<and> (\<forall>y. years_secs y \<le> E \<and> E < years_secs (y + 1) \<longrightarrow> 2147483647 < y \<and> tm_year r \<noteq> y)"
proof -
  from gmtime_resolve [OF assms(1), of E] obtain k t1 m t2 where
    g: "gmtime s E = Some (Some (resolved_tm E (int_wrap k) t1 m t2),
                        s\<lparr>dpm := dpm_init, tm2 := resolved_tm E (int_wrap k) t1 m t2\<rparr>)"
    by blast
  have y: "int_wrap k \<le> 2147483647" by (rule int_wrap_range)
  have "years_secs 2147483648 \<le> (2147483648 - 70) * SECS_PER_LEAP"
    unfolding years_secs_gsecs by (rule gsecs_upper [OF year_lengths_ylen]) simp
  with assms(2) have E: "years_secs 2147483648 \<le> E"
    by (simp add: SECS_PER_LEAP_def SECS_PER_YEAR_def SECS_PER_DAY_def)
  have beyond: "2147483647 < y" if "E < years_secs (y + 1)" for y
  proof (rule ccontr)
    assume "\<not> 2147483647 < y"
    then have "y + 1 \<le> 2147483648" by simp
    from years_secs_mono [OF this] E that show False by simp
  qed
  let ?r = "resolved_tm E (int_wrap k) t1 m t2"
  have yr: "tm_year ?r \<le> 2147483647" using y by (simp add: resolved_tm_def)
  have "2147483647 < y \<and> tm_year ?r \<noteq> y"
    if "years_secs y \<le> E \<and> E < years_secs (y + 1)" for y
    using beyond [of y] that yr by simp
  with g yr E show ?thesis by blast
qed

theorem gmtime_year_beyond_int_witness:
  "dpm statics_init = dpm_init \<and> (2 ^ 62 :: int) \<le> 4611686018427387904
   \<and> (\<exists>r s'. gmtime statics_init 4611686018427387904 = Some (Some r, s')
        \<and> tm_year r \<le> 2147483647 \<and> years_secs 2147483648 \<le> 4611686018427387904)"
  using gmtime_year_beyond_int [of statics_init 4611686018427387904]
  by (auto simp: statics_init_def)

section \<open>Calls on given inputs\<close>

text \<open>
  The weekday index of the epoch is not 0: \<^verbatim>\<open>(0 / SECS_PER_DAY + 4) % 7\<close> is 4.
\<close>

theorem gmtime_epoch_wday_counterexample:
  "map_option tm_wday (gmtime_tm statics_init 0) \<noteq> Some 0"
  by (simp add: gmtime_tm_def statics_init_def gmtime_eval_defs)

text \<open>
  C3, with the weekday index the code computes: the call on 0 returns year offset 70,
  month 0, day of the month 1, hours, minutes and seconds 0, day of the year 0, and
  weekday index 4. The code adds 4 to the day count, so Thursday, the weekday of the
  epoch, has index 4 and index 0 is a Sunday.
\<close>

theorem gmtime_epoch:
  "dpm s = dpm_init \<Longrightarrow>
   \<exists>s'. gmtime s 0 =
     Some (Some \<lparr>tm_sec = 0, tm_min = 0, tm_hour = 0, tm_mday = 1, tm_mon = 0, tm_year = 70,
                 tm_wday = 4, tm_yday = 0, tm_isdst = - 1\<rparr>, s')"
  by (simp add: gmtime_eval_defs)

theorem gmtime_epoch_witness:
  "dpm statics_init = dpm_init
   \<and> (\<exists>s'. gmtime statics_init 0 =
     Some (Some \<lparr>tm_sec = 0, tm_min = 0, tm_hour = 0, tm_mday = 1, tm_mon = 0, tm_year = 70,
                 tm_wday = 4, tm_yday = 0, tm_isdst = - 1\<rparr>, s'))"
  using gmtime_epoch [of statics_init] by (simp add: statics_init_def)

text \<open>
  The weekday index returned for \<open>- 1\<close> is neither 6 nor 3, the index of Wednesday when
  Thursday is 4: \<^verbatim>\<open>(-1 / SECS_PER_DAY + 4) % 7\<close> is 4, since the division truncates to 0.
\<close>

theorem gmtime_minus_one_wday_counterexample:
  "map_option tm_wday (gmtime_tm statics_init (- 1)) \<noteq> Some 6
   \<and> map_option tm_wday (gmtime_tm statics_init (- 1)) \<noteq> Some 3"
  by (simp add: gmtime_tm_def statics_init_def gmtime_eval_defs)

text \<open>
  C5, without the weekday: the call on \<open>- 1\<close> returns the date and time
  1969-12-31T23:59:59, that is year offset 69, month 11, day of the month 31, hours 23,
  minutes 59, seconds 59.
\<close>

theorem gmtime_minus_one:
  "dpm s = dpm_init \<Longrightarrow>
   \<exists>r s'. gmtime s (- 1) = Some (Some r, s')
     \<and> tm_year r = 69 \<and> tm_mon r = 11 \<and> tm_mday r = 31
     \<and> tm_hour r = 23 \<and> tm_min r = 59 \<and> tm_sec r = 59"
  by (simp add: gmtime_eval_defs)

theorem gmtime_minus_one_witness:
  "dpm statics_init = dpm_init
   \<and> (\<exists>r s'. gmtime statics_init (- 1) = Some (Some r, s')
     \<and> tm_year r = 69 \<and> tm_mon r = 11 \<and> tm_mday r = 31
     \<and> tm_hour r = 23 \<and> tm_min r = 59 \<and> tm_sec r = 59)"
  using gmtime_minus_one [of statics_init] by (simp add: statics_init_def)

text \<open>
  C6: 2000 is a leap year, and the seconds of 2000-02-29T00:00:00 resolve to month 1,
  day 29. 1900 is not a leap year, and the seconds counted naively for a 29th day of
  February 1900 (59 days after its 1 January) resolve to month 2, day 1.
\<close>

theorem gmtime_leap_boundaries:
  "dpm s = dpm_init \<Longrightarrow>
   isleap 2000 \<and> recompose (civil 100 1 29) = 951782400
   \<and> (\<exists>r s'. gmtime s 951782400 = Some (Some r, s')
        \<and> tm_year r = 100 \<and> tm_mon r = 1 \<and> tm_mday r = 29)
   \<and> \<not> isleap 1900 \<and> recompose (civil 0 1 29) = - 2203891200
   \<and> (\<exists>r s'. gmtime s (- 2203891200) = Some (Some r, s')
        \<and> tm_year r = 0 \<and> tm_mon r = 2 \<and> tm_mday r = 1)"
proof (intro conjI)
  assume d: "dpm s = dpm_init"
  show "isleap 2000" by (simp add: isleap_def)
  show "\<not> isleap 1900" by (simp add: isleap_def)
  show "recompose (civil 100 1 29) = 951782400" by (simp add: recompose_eval_defs)
  show "recompose (civil 0 1 29) = - 2203891200" by (simp add: recompose_eval_defs)
  show "\<exists>r s'. gmtime s 951782400 = Some (Some r, s')
        \<and> tm_year r = 100 \<and> tm_mon r = 1 \<and> tm_mday r = 29"
    using d by (simp add: gmtime_eval_defs)
  show "\<exists>r s'. gmtime s (- 2203891200) = Some (Some r, s')
        \<and> tm_year r = 0 \<and> tm_mon r = 2 \<and> tm_mday r = 1"
    using d by (simp add: gmtime_eval_defs)
qed

theorem gmtime_leap_boundaries_witness:
  "dpm statics_init = dpm_init
   \<and> (\<exists>r s'. gmtime statics_init 951782400 = Some (Some r, s')
        \<and> tm_year r = 100 \<and> tm_mon r = 1 \<and> tm_mday r = 29)
   \<and> (\<exists>r s'. gmtime statics_init (- 2203891200) = Some (Some r, s')
        \<and> tm_year r = 0 \<and> tm_mon r = 2 \<and> tm_mday r = 1)"
  using gmtime_leap_boundaries [of statics_init] by (simp add: statics_init_def)


section \<open>The static table across calls\<close>






section \<open>Termination of the loops\<close>

lemma year_fwd_while:
  "while_option
     (\<lambda>(t, year). t \<ge> (if istmleap year then SECS_PER_LEAP else SECS_PER_YEAR))
     (\<lambda>(t, year). (t - (if istmleap year then SECS_PER_LEAP else SECS_PER_YEAR),
                     int_wrap (year + 1)))
     (t, year) = Some (year_fwd t year)"
proof (induction t year rule: year_fwd.induct)
  case (1 t year)
  show ?case
  proof (cases "t \<ge> (if istmleap year then SECS_PER_LEAP else SECS_PER_YEAR)")
    case True
    with "1.IH" [OF refl True] show ?thesis
      by (subst while_option_unfold, subst year_fwd.simps) (simp add: Let_def)
  next
    case False
    then show ?thesis
      by (subst while_option_unfold, subst year_fwd.simps) (simp add: Let_def)
  qed
qed

lemma year_back_while:
  "while_option (\<lambda>(t, year). t < 0)
     (\<lambda>(t, year). (t + (if istmleap (int_wrap (year - 1)) then SECS_PER_LEAP
                          else SECS_PER_YEAR), int_wrap (year - 1)))
     (t, year) = Some (year_back t year)"
proof (induction t year rule: year_back.induct)
  case (1 t year)
  show ?case
  proof (cases "t < 0")
    case True
    with "1.IH" [OF True] show ?thesis
      by (subst while_option_unfold, subst year_back.simps) simp
  next
    case False
    then show ?thesis
      by (subst while_option_unfold, subst year_back.simps) simp
  qed
qed

lemma month_walk_while:
  "month_walk d t mon = Some r \<Longrightarrow>
   while_option (\<lambda>(t, mon). t \<ge> uint (d ! mon) * SECS_PER_DAY)
     (\<lambda>(t, mon). (t - uint (d ! mon) * SECS_PER_DAY, mon + 1)) (t, mon) = Some r"
proof (induction d t mon rule: month_walk.induct)
  case (1 d t mon)
  from "1.prems" have in_range: "mon < length d"
    by (subst (asm) month_walk.simps) (simp split: if_splits)
  show ?case
  proof (cases "t \<ge> uint (d ! mon) * SECS_PER_DAY")
    case True
    then have "month_walk d (t - uint (d ! mon) * SECS_PER_DAY) (mon + 1) = Some r"
      using "1.prems" in_range by (subst (asm) month_walk.simps) simp
    from "1.IH" [OF in_range True this] True show ?thesis
      by (subst while_option_unfold) simp
  next
    case False
    then have "r = (t, mon)"
      using "1.prems" in_range by (subst (asm) month_walk.simps) simp
    with False show ?thesis
      by (subst while_option_unfold) simp
  qed
qed

lemma day_walk_while:
  "while_option (\<lambda>(t, mday). t \<ge> SECS_PER_DAY) (\<lambda>(t, mday). (t - SECS_PER_DAY, mday + 1))
     (t, mday) = Some (day_walk t mday)"
proof (induction t mday rule: day_walk.induct)
  case (1 t mday)
  show ?case
  proof (cases "t \<ge> SECS_PER_DAY")
    case True
    with "1.IH" [OF True] show ?thesis
      by (subst while_option_unfold, subst day_walk.simps) simp
  next
    case False
    then show ?thesis
      by (subst while_option_unfold, subst day_walk.simps) simp
  qed
qed

lemma hour_walk_while:
  "while_option (\<lambda>(t, hour). t \<ge> SECS_PER_HOUR) (\<lambda>(t, hour). (t - SECS_PER_HOUR, hour + 1))
     (t, hour) = Some (hour_walk t hour)"
proof (induction t hour rule: hour_walk.induct)
  case (1 t hour)
  show ?case
  proof (cases "t \<ge> SECS_PER_HOUR")
    case True
    with "1.IH" [OF True] show ?thesis
      by (subst while_option_unfold, subst hour_walk.simps) simp
  next
    case False
    then show ?thesis
      by (subst while_option_unfold, subst hour_walk.simps) simp
  qed
qed

lemma min_walk_while:
  "while_option (\<lambda>(t, minute). t \<ge> SECS_PER_MIN) (\<lambda>(t, minute). (t - SECS_PER_MIN, minute + 1))
     (t, minute) = Some (min_walk t minute)"
proof (induction t minute rule: min_walk.induct)
  case (1 t minute)
  show ?case
  proof (cases "t \<ge> SECS_PER_MIN")
    case True
    with "1.IH" [OF True] show ?thesis
      by (subst while_option_unfold, subst min_walk.simps) simp
  next
    case False
    then show ?thesis
      by (subst while_option_unfold, subst min_walk.simps) simp
  qed
qed


text \<open>
  C10: every loop of \<^verbatim>\<open>gmtime\<close> exits. Each loop, run as a \<open>while\<close> that may fail to
  exit (\<open>while_option\<close> is \<open>None\<close> then), exits with the result of the recursive
  function that models it: the two year loops, the day, hour and minute loops from
  every state, and the month loop from the state in which the year loops leave it,
  reading the table inside its bounds. A call on the initial table returns.
\<close>

theorem gmtime_loops_terminate:
  "while_option
     (\<lambda>(t, year). t \<ge> (if istmleap year then SECS_PER_LEAP else SECS_PER_YEAR))
     (\<lambda>(t, year). (t - (if istmleap year then SECS_PER_LEAP else SECS_PER_YEAR),
                     int_wrap (year + 1)))
     (t, year) = Some (year_fwd t year)
   \<and> while_option (\<lambda>(t, year). t < 0)
     (\<lambda>(t, year). (t + (if istmleap (int_wrap (year - 1)) then SECS_PER_LEAP
                          else SECS_PER_YEAR), int_wrap (year - 1)))
     (t, year) = Some (year_back t year)
   \<and> (dpm s = dpm_init \<longrightarrow> year_fwd E 70 = (ta, ya) \<longrightarrow> year_back ta ya = (tb, yb) \<longrightarrow>
        (\<exists>r. month_walk (set_february (dpm s) yb) tb 0 = Some r
          \<and> while_option
              (\<lambda>(t, mon). t \<ge> uint (set_february (dpm s) yb ! mon)
                              * SECS_PER_DAY)
              (\<lambda>(t, mon). (t - uint (set_february (dpm s) yb ! mon)
                              * SECS_PER_DAY, mon + 1))
              (tb, 0) = Some r))
   \<and> while_option (\<lambda>(t, mday). t \<ge> SECS_PER_DAY) (\<lambda>(t, mday). (t - SECS_PER_DAY, mday + 1))
     (t, n) = Some (day_walk t n)
   \<and> while_option (\<lambda>(t, hour). t \<ge> SECS_PER_HOUR) (\<lambda>(t, hour). (t - SECS_PER_HOUR, hour + 1))
     (t, n) = Some (hour_walk t n)
   \<and> while_option (\<lambda>(t, minute). t \<ge> SECS_PER_MIN) (\<lambda>(t, minute). (t - SECS_PER_MIN, minute + 1))
     (t, n) = Some (min_walk t n)
   \<and> (dpm s = dpm_init \<longrightarrow> (\<exists>p s'. gmtime s E = Some (p, s')))"
proof (intro conjI impI)
  assume d: "dpm s = dpm_init"
  from gmtime_resolve [OF d, of E] show "\<exists>p s'. gmtime s E = Some (p, s')" by blast
  assume fw: "year_fwd E 70 = (ta, ya)" and bk: "year_back ta ya = (tb, yb)"
  have w70: "70 = int_wrap 70" by (simp add: int_wrap_def)
  from year_fwd_inv [OF w70 fw] obtain ka where
    f: "ya = int_wrap ka" "ta < clen ka" "0 \<le> E \<longrightarrow> 0 \<le> ta" by blast
  from year_back_inv [OF f(1) bk] obtain k where
    b: "yb = int_wrap k" "0 \<le> tb" "ta < clen ka \<longrightarrow> tb < clen k" by blast
  have tb: "0 \<le> tb" "tb < clen k" using f b by auto
  have tab: "set_february (dpm s) yb = set_february dpm_init (int_wrap k)"
    using d b(1) by simp
  let ?d = "set_february dpm_init (int_wrap k)"
  have m0: "msum ?d 0 = 0" by (simp add: msum_def)
  have "\<exists>r. month_walk ?d tb 0 = Some r"
    using tb by (intro month_walk_Some)
      (simp_all add: set_february_length set_february_total m0)
  then obtain r where r: "month_walk ?d tb 0 = Some r" ..
  from r month_walk_while [OF r]
  show "\<exists>r. month_walk (set_february (dpm s) yb) tb 0 = Some r
          \<and> while_option
              (\<lambda>(t, mon). t \<ge> uint (set_february (dpm s) yb ! mon)
                              * SECS_PER_DAY)
              (\<lambda>(t, mon). (t - uint (set_february (dpm s) yb ! mon)
                              * SECS_PER_DAY, mon + 1))
              (tb, 0) = Some r"
    unfolding tab by blast
qed (rule year_fwd_while year_back_while day_walk_while hour_walk_while min_walk_while)+

theorem gmtime_loops_terminate_witness:
  "dpm statics_init = dpm_init \<and> year_fwd (- 1) 70 = (- 1, 70)
   \<and> year_back (- 1) 70 = (31535999, 69)
   \<and> (\<exists>r. month_walk dpm_init 31535999 0 = Some r
        \<and> while_option (\<lambda>(t, mon). t \<ge> uint (dpm_init ! mon) * SECS_PER_DAY)
            (\<lambda>(t, mon). (t - uint (dpm_init ! mon) * SECS_PER_DAY, mon + 1))
            (31535999, 0) = Some r)
   \<and> (\<exists>p s'. gmtime statics_init (- 1) = Some (p, s'))"
proof -
  have d: "dpm statics_init = dpm_init" by (simp add: statics_init_def)
  have fw: "year_fwd (- 1) 70 = (- 1, 70)"
    by (simp add: year_fwd.simps Let_def SECS_PER_LEAP_def SECS_PER_YEAR_def SECS_PER_DAY_def)
  have bk: "year_back (- 1) 70 = (31535999, 69)"
    by (simp add: year_back.simps istmleap_def isleap_def int_wrap_def SECS_PER_LEAP_def
        SECS_PER_YEAR_def SECS_PER_DAY_def)
  have nl: "\<not> istmleap 69" by (simp add: istmleap_def isleap_def int_wrap_def)
  from gmtime_loops_terminate [of 0 0 statics_init "- 1" "- 1" 70 31535999 69 0] d fw bk nl
  show ?thesis by (simp add: set_february_def)
qed

end
